theory Spec2Isabelle
  imports Main
begin

section \<open>The sign sequence shown by \<open>SignDisplay.jsx\<close>\<close>

text \<open>
  A sign object of the translation result carries a \<open>type\<close> (\<open>'word'\<close>, \<open>'letter'\<close> or
  \<open>'space'\<close>), a label, the original word and an optional image URL. The component only
  ever compares \<open>type\<close> with \<open>'space'\<close> (navigation) and with \<open>'letter'\<close> (rendering).
\<close>

datatype sign_type = Word | Letter | Space

record sign =
  type :: sign_type
  label :: string
  original :: string
  image_url :: "string option"

text \<open>The \<open>data\<close> property: the object returned by the backend, or \<open>null\<close>.\<close>

record translation =
  original_text :: string
  isl_tokens :: "string list"
  data_signs :: "sign list"
  total_signs :: int

text \<open>
  Reading \<open>signs[next].type\<close> where \<open>signs[next]\<close> is \<open>undefined\<close> (an index outside
  the array) throws a \<open>TypeError\<close> in JavaScript.
\<close>

datatype error = TypeError

text \<open>
  The loop \<open>while (next < signs.length && signs[next].type === 'space') next++\<close> of
  \<open>nextSign\<close> and of the interval callback. A negative \<open>next\<close> passes the first test
  and then reads outside the array.
\<close>

function skip_forward :: "sign list \<Rightarrow> int \<Rightarrow> error + int" where
  "skip_forward sgs next =
     (if next < int (length sgs) then
        (if next < 0 then Inl TypeError
         else if type (sgs ! nat next) = Space then skip_forward sgs (next + 1)
         else Inr next)
      else Inr next)"
  by pat_completeness auto
termination
  by (relation "measure (\<lambda>(sgs, next). nat (int (length sgs) - next))") auto

text \<open>
  The loop \<open>while (next > 0 && signs[next].type === 'space') next--\<close> of \<open>prevSign\<close>.
  A \<open>next\<close> at or beyond the length reads outside the array.
\<close>

function skip_backward :: "sign list \<Rightarrow> int \<Rightarrow> error + int" where
  "skip_backward sgs next =
     (if next > 0 then
        (if next \<ge> int (length sgs) then Inl TypeError
         else if type (sgs ! nat next) = Space then skip_backward sgs (next - 1)
         else Inr next)
      else Inr next)"
  by pat_completeness auto
termination
  by (relation "measure (\<lambda>(sgs, next). nat next)") auto

declare skip_forward.simps [simp del]
declare skip_backward.simps [simp del]

section \<open>Browser timers and the component state\<close>

text \<open>
  Two closures are handed to the browser: the interval callback of the timer effect, which
  captures the \<open>signs\<close> of the render that created it, and \<open>() => play()\<close> of
  \<open>replay\<close> and of the auto-start effect.
\<close>

datatype callback = TickCb "sign list" | PlayCb

text \<open>
  A pending timer: its handle, the time (ms) from which it may fire, its period when it was
  made by \<open>setInterval\<close> (\<open>None\<close> for \<open>setTimeout\<close>), and its callback.
\<close>

record timer =
  tid :: nat
  due :: nat
  repeat :: "nat option"
  cb :: callback

text \<open>
  The component: the \<open>data\<close> property, the three \<open>useState\<close> cells, the ref holding the
  interval handle, the handle \<open>t\<close> captured by the cleanup of the auto-start effect, and
  the part of the browser the component talks to (pending timers, the next handle, the
  clock in ms).
\<close>

record component =
  data :: "translation option"
  currentIndex :: int
  isPlaying :: bool
  speed :: int
  intervalRef :: "nat option"
  autoStart :: "nat option"
  timers :: "timer list"
  next_id :: nat
  now :: nat

text \<open>\<open>const signs = data?.signs || []\<close>\<close>

definition signs :: "component \<Rightarrow> sign list" where
  "signs c = (case data c of None \<Rightarrow> [] | Some d \<Rightarrow> data_signs d)"

text \<open>
  \<open>setInterval\<close> and \<open>setTimeout\<close> draw handles from one counter; a negative delay counts
  as 0. \<open>clearInterval\<close> and \<open>clearTimeout\<close> remove the timer with the given handle and
  ignore \<open>null\<close> and handles that are not pending.
\<close>

definition setInterval :: "callback \<Rightarrow> int \<Rightarrow> component \<Rightarrow> nat \<times> component" where
  "setInterval f delay c =
     (next_id c,
      c\<lparr>timers := timers c @
           [\<lparr>tid = next_id c, due = now c + nat delay, repeat = Some (nat delay), cb = f\<rparr>],
        next_id := next_id c + 1\<rparr>)"

definition setTimeout :: "callback \<Rightarrow> int \<Rightarrow> component \<Rightarrow> nat \<times> component" where
  "setTimeout f delay c =
     (next_id c,
      c\<lparr>timers := timers c @
           [\<lparr>tid = next_id c, due = now c + nat delay, repeat = None, cb = f\<rparr>],
        next_id := next_id c + 1\<rparr>)"

definition clearInterval :: "nat option \<Rightarrow> component \<Rightarrow> component" where
  "clearInterval h c =
     (case h of None \<Rightarrow> c
      | Some i \<Rightarrow> c\<lparr>timers := filter (\<lambda>t. tid t \<noteq> i) (timers c)\<rparr>)"

definition clearTimeout :: "nat option \<Rightarrow> component \<Rightarrow> component" where
  "clearTimeout h c = clearInterval h c"

subsection \<open>The callbacks of the component\<close>

definition play :: "component \<Rightarrow> component" where
  "play c = c\<lparr>isPlaying := True\<rparr>"

definition pause :: "component \<Rightarrow> component" where
  "pause c =
     (let c1 = c\<lparr>isPlaying := False\<rparr>
      in if intervalRef c1 \<noteq> None
         then (clearInterval (intervalRef c1) c1)\<lparr>intervalRef := None\<rparr>
         else c1)"

definition goToSign :: "int \<Rightarrow> component \<Rightarrow> component" where
  "goToSign index c = c\<lparr>currentIndex := index\<rparr>"

definition nextSign :: "component \<Rightarrow> error + component" where
  "nextSign c =
     (let prev = currentIndex c in
      if prev \<ge> int (length (signs c)) - 1 then Inr (c\<lparr>isPlaying := False\<rparr>)
      else case skip_forward (signs c) (prev + 1) of
             Inl e \<Rightarrow> Inl e
           | Inr next \<Rightarrow>
               Inr (c\<lparr>currentIndex := (if next \<ge> int (length (signs c)) then prev else next)\<rparr>))"

definition prevSign :: "component \<Rightarrow> error + component" where
  "prevSign c =
     (let prev = currentIndex c in
      if prev \<le> 0 then Inr (c\<lparr>currentIndex := 0\<rparr>)
      else case skip_backward (signs c) (prev - 1) of
             Inl e \<Rightarrow> Inl e
           | Inr next \<Rightarrow> Inr (c\<lparr>currentIndex := next\<rparr>))"

definition replay :: "component \<Rightarrow> component" where
  "replay c =
     (let c1 = pause c;
          c2 = c1\<lparr>currentIndex := 0\<rparr>
      in snd (setTimeout PlayCb 300 c2))"

text \<open>The interval callback; \<open>sgs\<close> is the array its closure captured.\<close>

definition tick :: "sign list \<Rightarrow> component \<Rightarrow> error + component" where
  "tick sgs c =
     (let prev = currentIndex c in
      case skip_forward sgs (prev + 1) of
        Inl e \<Rightarrow> Inl e
      | Inr next \<Rightarrow>
          if next \<ge> int (length sgs)
          then Inr (clearInterval (intervalRef c) (c\<lparr>isPlaying := False\<rparr>))
          else Inr (c\<lparr>currentIndex := next\<rparr>))"

subsection \<open>The effects\<close>

text \<open>
  The timer effect (dependencies \<open>isPlaying\<close>, \<open>speed\<close>, \<open>signs\<close>): its cleanup and its
  body.
\<close>

definition timer_cleanup :: "component \<Rightarrow> component" where
  "timer_cleanup c = (if intervalRef c \<noteq> None then clearInterval (intervalRef c) c else c)"

definition timer_effect :: "component \<Rightarrow> component" where
  "timer_effect c =
     (if isPlaying c \<and> length (signs c) > 0
      then (let (h, c1) = setInterval (TickCb (signs c)) (speed c) c
            in c1\<lparr>intervalRef := Some h\<rparr>)
      else c)"

text \<open>The reset effect and the auto-start effect (dependency \<open>data\<close>).\<close>

definition reset_effect :: "component \<Rightarrow> component" where
  "reset_effect c = c\<lparr>currentIndex := 0, isPlaying := False\<rparr>"

definition autostart_cleanup :: "component \<Rightarrow> component" where
  "autostart_cleanup c = clearTimeout (autoStart c) c"

definition autostart_effect :: "component \<Rightarrow> component" where
  "autostart_effect c =
     (if data c \<noteq> None \<and> length (signs c) > 0
      then (let (t, c1) = setTimeout PlayCb 500 c in c1\<lparr>autoStart := Some t\<rparr>)
      else c\<lparr>autoStart := None\<rparr>)"

text \<open>
  The render that follows a state update made by a handler or a timer callback: the timer
  effect runs again (cleanup, then body) when one of \<open>isPlaying\<close>, \<open>speed\<close> differs from
  the render before. (\<open>signs\<close> changes with \<open>data\<close> only, see \<open>load\<close>. While \<open>data\<close> is
  \<open>null\<close>, \<open>signs\<close> is a new empty array at every render and the effect runs each time,
  but its body then creates nothing.)
\<close>

definition commit :: "component \<Rightarrow> component \<Rightarrow> component" where
  "commit old c =
     (if isPlaying c \<noteq> isPlaying old \<or> speed c \<noteq> speed old
      then timer_effect (timer_cleanup c)
      else c)"

text \<open>
  A new \<open>data\<close> property (\<open>setResult\<close> in \<open>Home.jsx\<close>). Setting \<open>null\<close> over \<open>null\<close>
  renders nothing. Otherwise the object is new: the cleanups of the timer effect and of the
  auto-start effect run, then the bodies of the three effects in the order of the source;
  the state written by the reset effect causes one more render.
\<close>

definition load :: "translation option \<Rightarrow> component \<Rightarrow> component" where
  "load d c =
     (if d = None \<and> data c = None then c
      else
        let c0 = c\<lparr>data := d\<rparr>;
            c1 = timer_cleanup c0;
            c2 = autostart_cleanup c1;
            c3 = timer_effect c2;
            c4 = reset_effect c3;
            c5 = autostart_effect c4
        in commit c3 c5)"

text \<open>
  The browser runs the callback of timer \<open>h\<close>: nothing happens when \<open>h\<close> is not pending
  (cleared, or a one-shot that has fired) or not yet due. A one-shot timer is removed
  before its callback runs, an interval is rescheduled one period later.
\<close>

definition reschedule :: "nat \<Rightarrow> nat \<Rightarrow> timer \<Rightarrow> timer" where
  "reschedule h d u = (if tid u = h then u\<lparr>due := d\<rparr> else u)"

definition before_callback :: "timer \<Rightarrow> component \<Rightarrow> component" where
  "before_callback t c =
     (case repeat t of
        None \<Rightarrow> clearTimeout (Some (tid t)) c
      | Some p \<Rightarrow> c\<lparr>timers := map (reschedule (tid t) (now c + p)) (timers c)\<rparr>)"

definition run_callback :: "callback \<Rightarrow> component \<Rightarrow> error + component" where
  "run_callback f c =
     (case f of
        PlayCb \<Rightarrow> Inr (commit c (play c))
      | TickCb sgs \<Rightarrow> (case tick sgs c of Inl e \<Rightarrow> Inl e | Inr c' \<Rightarrow> Inr (commit c c')))"

definition fire :: "nat \<Rightarrow> component \<Rightarrow> error + component" where
  "fire h c =
     (case find (\<lambda>t. tid t = h) (timers c) of
        None \<Rightarrow> Inr c
      | Some t \<Rightarrow>
          if now c < due t then Inr c
          else run_callback (cb t) (before_callback t c))"

subsection \<open>Events\<close>

text \<open>
  The commands of the controls (\<open>play\<close>, \<open>pause\<close>, \<open>next\<close>, \<open>prev\<close>, \<open>replay\<close>, a click on
  a timeline chip, the speed select), a new result, a timer firing, and time passing.
\<close>

datatype event =
  Play | Pause | Next | Prev | Replay | Seek int | SetSpeed int
  | Load "translation option" | Fire nat | Elapse nat

fun step :: "event \<Rightarrow> component \<Rightarrow> error + component" where
  "step Play c = Inr (commit c (play c))"
| "step Pause c = Inr (commit c (pause c))"
| "step Next c = (case nextSign c of Inl e \<Rightarrow> Inl e | Inr c' \<Rightarrow> Inr (commit c c'))"
| "step Prev c = (case prevSign c of Inl e \<Rightarrow> Inl e | Inr c' \<Rightarrow> Inr (commit c c'))"
| "step Replay c = Inr (commit c (replay c))"
| "step (Seek i) c = Inr (commit c (goToSign i c))"
| "step (SetSpeed ms) c = Inr (commit c (c\<lparr>speed := ms\<rparr>))"
| "step (Load d) c = Inr (load d c)"
| "step (Fire h) c = fire h c"
| "step (Elapse d) c = Inr (c\<lparr>now := now c + d\<rparr>)"

fun run :: "event list \<Rightarrow> component \<Rightarrow> error + component" where
  "run [] c = Inr c"
| "run (e # es) c = (case step e c of Inl x \<Rightarrow> Inl x | Inr c' \<Rightarrow> run es c')"

text \<open>
  The component as \<open>Home.jsx\<close> mounts it: no result, index 0, paused, speed 1000. Browser
  handles start at 1 (the source tests a handle for truthiness).
\<close>

definition initial :: component where
  "initial = \<lparr>data = None, currentIndex = 0, isPlaying = False, speed = 1000,
              intervalRef = None, autoStart = None, timers = [], next_id = 1, now = 0\<rparr>"

section \<open>Properties of states and events\<close>

text \<open>Index \<open>j\<close> denotes a visual sign of \<open>sgs\<close>: it is in range and not a \<open>Space\<close>.\<close>

definition visual :: "sign list \<Rightarrow> int \<Rightarrow> bool" where
  "visual sgs j \<longleftrightarrow> 0 \<le> j \<and> j < int (length sgs) \<and> type (sgs ! nat j) \<noteq> Space"

subsection \<open>Sample results and states\<close>

definition sign_you :: sign where
  "sign_you = \<lparr>type = Word, label = ''YOU'', original = ''you'',
                image_url = Some ''/api/sign-image/YOU''\<rparr>"

definition sign_n :: sign where
  "sign_n = \<lparr>type = Letter, label = ''N'', original = ''name'',
              image_url = Some ''/api/sign-image/N''\<rparr>"

definition sign_gap :: sign where
  "sign_gap = \<lparr>type = Space, label = '' '', original = '' '', image_url = None\<rparr>"

definition result_of :: "sign list \<Rightarrow> translation" where
  "result_of sgs =
     \<lparr>original_text = [], isl_tokens = [], data_signs = sgs,
      total_signs = int (length (filter (\<lambda>s. type s \<noteq> Space) sgs))\<rparr>"

text \<open>The result \<open>you | N\<close> just loaded into the mounted component.\<close>

definition three_loaded :: component where
  "three_loaded = load (Some (result_of [sign_you, sign_gap, sign_n])) initial"

text \<open>The same result with the letter at index 2 selected.\<close>

definition at_second_word :: component where
  "at_second_word = three_loaded\<lparr>currentIndex := 2\<rparr>"

text \<open>That state with the slowest speed selected.\<close>

definition slowed :: component where
  "slowed = at_second_word\<lparr>speed := 2000\<rparr>"

text \<open>
  The result \<open>you |\<close>, which ends with a \<open>Space\<close>, playing at index 0 since the
  auto-start of time 500.
\<close>

definition before_trailing_gap :: component where
  "before_trailing_gap =
     \<lparr>data = Some (result_of [sign_you, sign_gap]), currentIndex = 0, isPlaying = True,
      speed = 1000, intervalRef = Some 2, autoStart = Some 1,
      timers = [\<lparr>tid = 2, due = 1500, repeat = Some 1000, cb = TickCb [sign_you, sign_gap]\<rparr>],
      next_id = 3, now = 500\<rparr>"

text \<open>The result \<open>you N\<close> playing since time 500, at time 900: the first tick is due at 1500.\<close>

definition mid_interval :: component where
  "mid_interval =
     \<lparr>data = Some (result_of [sign_you, sign_n]), currentIndex = 0, isPlaying = True,
      speed = 1000, intervalRef = Some 2, autoStart = Some 1,
      timers = [\<lparr>tid = 2, due = 1500, repeat = Some 1000, cb = TickCb [sign_you, sign_n]\<rparr>],
      next_id = 3, now = 900\<rparr>"

text \<open>
  The result \<open>you N\<close> after \<open>replay\<close> at time 500, \<open>play\<close> at 600 and \<open>pause\<close> at 700: the
  timeout of \<open>replay\<close> is still pending.
\<close>

definition paused_after_replay :: component where
  "paused_after_replay =
     \<lparr>data = Some (result_of [sign_you, sign_n]), currentIndex = 0, isPlaying = False,
      speed = 1000, intervalRef = None, autoStart = Some 1,
      timers = [\<lparr>tid = 3, due = 800, repeat = None, cb = PlayCb\<rparr>],
      next_id = 5, now = 700\<rparr>"

subsection \<open>What the user interface observes\<close>

text \<open>The pair \<open>(currentIndex, isPlaying)\<close> after a transition, or the error it raised.\<close>

definition observe :: "error + component \<Rightarrow> error + int \<times> bool" where
  "observe r = map_sum id (\<lambda>c. (currentIndex c, isPlaying c)) r"

text \<open>
  The index denotes a visual sign of the loaded sequence, or is 0 on an empty sequence.
\<close>

definition visual_index :: "component \<Rightarrow> bool" where
  "visual_index c \<longleftrightarrow>
     (signs c = [] \<and> currentIndex c = 0) \<or> visual (signs c) (currentIndex c)"

subsection \<open>The invariant of the controller\<close>

text \<open>
  A sequence is empty or begins with a visual sign; every pending interval callback has
  captured the current \<open>signs\<close> and is the interval held by the ref; and the three
  together with \<open>visual_index\<close> form the invariant \<open>steady\<close>.
\<close>

definition starts_visual :: "sign list \<Rightarrow> bool" where
  "starts_visual sgs = (case sgs of [] \<Rightarrow> True | s # _ \<Rightarrow> type s \<noteq> Space)"

definition ticks_current :: "component \<Rightarrow> bool" where
  "ticks_current c \<longleftrightarrow>
     (\<forall>t\<in>set (timers c). \<forall>sgs. cb t = TickCb sgs \<longrightarrow> sgs = signs c \<and> intervalRef c = Some (tid t))"

definition steady :: "component \<Rightarrow> bool" where
  "steady c \<longleftrightarrow> visual_index c \<and> starts_visual (signs c) \<and> ticks_current c"

text \<open>
  The events the invariant admits: \<open>seek\<close> to a visual index (the timeline attaches
  \<open>goToSign\<close> to the chips of visual signs only), a result that is empty or begins with a
  visual sign, and every other event. The states reached from the mounted component by
  such events are \<open>reachable\<close>.
\<close>

fun permitted :: "event \<Rightarrow> component \<Rightarrow> bool" where
  "permitted (Seek i) c = visual (signs c) i"
| "permitted (Load d) c = (case d of None \<Rightarrow> True | Some r \<Rightarrow> starts_visual (data_signs r))"
| "permitted e c = True"

inductive reachable :: "component \<Rightarrow> bool" where
  reachable_initial: "reachable initial"
| reachable_step: "reachable c \<Longrightarrow> permitted e c \<Longrightarrow> step e c = Inr c' \<Longrightarrow> reachable c'"

text \<open>Every pending timer has a handle below the next one the browser hands out.\<close>

definition fresh_ids :: "component \<Rightarrow> bool" where
  "fresh_ids c \<longleftrightarrow> (\<forall>t\<in>set (timers c). tid t < next_id c)"

section \<open>The two skipping loops\<close>

lemma skip_forward_result:
  "0 \<le> n \<Longrightarrow>
   \<exists>m. skip_forward sgs n = Inr m \<and> n \<le> m
       \<and> (n \<le> int (length sgs) \<longrightarrow> m \<le> int (length sgs))
       \<and> (m < int (length sgs) \<longrightarrow> visual sgs m)
       \<and> (\<forall>j. n \<le> j \<and> j < m \<longrightarrow> \<not> visual sgs j)"
proof (induction sgs n rule: skip_forward.induct)
  case (1 sgs n)
  show ?case
  proof (cases "n < int (length sgs)")
    case False
    then show ?thesis
      using "1.prems" by (subst skip_forward.simps) (auto simp: visual_def)
  next
    case inside: True
    show ?thesis
    proof (cases "type (sgs ! nat n) = Space")
      case False
      then show ?thesis
        using inside "1.prems" by (subst skip_forward.simps) (auto simp: visual_def)
    next
      case True
      from "1.IH" [OF inside _ True] "1.prems"
      obtain m where m: "skip_forward sgs (n + 1) = Inr m" "n + 1 \<le> m"
        "m \<le> int (length sgs)" "m < int (length sgs) \<longrightarrow> visual sgs m"
        "\<forall>j. n + 1 \<le> j \<and> j < m \<longrightarrow> \<not> visual sgs j"
        using inside by auto
      have here: "\<not> visual sgs n" using True by (simp add: visual_def)
      have "\<not> visual sgs j" if "n \<le> j \<and> j < m" for j
      proof (cases "j = n")
        case True
        with here show ?thesis by simp
      next
        case False
        with that have "n + 1 \<le> j \<and> j < m" by linarith
        with m(5) show ?thesis by blast
      qed
      with m show ?thesis
        using inside "1.prems" True by (subst skip_forward.simps) simp
    qed
  qed
qed

lemma skip_backward_result:
  "n < int (length sgs) \<Longrightarrow>
   \<exists>m. skip_backward sgs n = Inr m \<and> m \<le> n \<and> (0 \<le> n \<longrightarrow> 0 \<le> m)
       \<and> (0 < m \<longrightarrow> visual sgs m)
       \<and> (\<forall>j. m < j \<and> j \<le> n \<longrightarrow> \<not> visual sgs j)"
proof (induction sgs n rule: skip_backward.induct)
  case (1 sgs n)
  show ?case
  proof (cases "0 < n")
    case False
    then show ?thesis
      by (subst skip_backward.simps) auto
  next
    case positive: True
    show ?thesis
    proof (cases "type (sgs ! nat n) = Space")
      case False
      then show ?thesis
        using positive "1.prems" by (subst skip_backward.simps) (auto simp: visual_def)
    next
      case True
      from "1.IH" [OF positive _ True] "1.prems"
      obtain m where m: "skip_backward sgs (n - 1) = Inr m" "m \<le> n - 1" "0 \<le> m"
        "0 < m \<longrightarrow> visual sgs m" "\<forall>j. m < j \<and> j \<le> n - 1 \<longrightarrow> \<not> visual sgs j"
        using positive by auto
      have here: "\<not> visual sgs n" using True by (simp add: visual_def)
      have "\<not> visual sgs j" if "m < j \<and> j \<le> n" for j
      proof (cases "j = n")
        case True
        with here show ?thesis by simp
      next
        case False
        with that have "m < j \<and> j \<le> n - 1" by linarith
        with m(5) show ?thesis by blast
      qed
      with m show ?thesis
        using positive "1.prems" True by (subst skip_backward.simps) simp
    qed
  qed
qed

section \<open>Renders that leave the timer effect alone\<close>

lemma commit_same [simp]:
  "isPlaying c' = isPlaying c \<Longrightarrow> speed c' = speed c \<Longrightarrow> commit c c' = c'"
  by (simp add: commit_def)

section \<open>seek\<close>

text \<open>
  Claim C5. For every state and every requested index, \<open>seek(index)\<close> (a click that
  calls \<open>goToSign\<close>) never fails and changes nothing but \<open>currentIndex\<close>, which becomes
  exactly the requested index: nothing is skipped or clamped, whatever sign (a \<open>Space\<close>
  too) or no sign at all stands at that index.
\<close>

theorem seek_exact: "step (Seek index) c = Inr (c\<lparr>currentIndex := index\<rparr>)"
  by (simp add: goToSign_def)

section \<open>prev\<close>

lemma prevSign_result:
  assumes "currentIndex c \<le> int (length (signs c))"
  shows "\<exists>r. prevSign c = Inr (c\<lparr>currentIndex := r\<rparr>)
           \<and> 0 \<le> r \<and> (0 < currentIndex c \<longrightarrow> r < currentIndex c)
           \<and> (visual (signs c) r \<or> r = 0)
           \<and> (\<forall>j. r < j \<and> j < currentIndex c \<longrightarrow> \<not> visual (signs c) j)"
proof (cases "currentIndex c \<le> 0")
  case True
  then show ?thesis
    by (auto simp: prevSign_def)
next
  case False
  with assms have "currentIndex c - 1 < int (length (signs c))" by simp
  from skip_backward_result [OF this] False
  obtain m where m: "skip_backward (signs c) (currentIndex c - 1) = Inr m"
    "m \<le> currentIndex c - 1" "0 \<le> m" "0 < m \<longrightarrow> visual (signs c) m"
    "\<forall>j. m < j \<and> j \<le> currentIndex c - 1 \<longrightarrow> \<not> visual (signs c) j"
    by auto
  have "prevSign c = Inr (c\<lparr>currentIndex := m\<rparr>)"
    using False m(1) by (simp add: prevSign_def)
  moreover have "visual (signs c) m \<or> m = 0"
    using m(3,4) by linarith
  moreover have "\<forall>j. m < j \<and> j < currentIndex c \<longrightarrow> \<not> visual (signs c) j"
    using m(5) by simp
  ultimately show ?thesis
    using m(2,3) False by auto
qed




section \<open>The operations in closed form\<close>

lemma signs_update [simp]:
  "signs (c\<lparr>currentIndex := i\<rparr>) = signs c"
  "signs (c\<lparr>isPlaying := b\<rparr>) = signs c"
  "signs (c\<lparr>speed := v\<rparr>) = signs c"
  "signs (c\<lparr>intervalRef := r\<rparr>) = signs c"
  "signs (c\<lparr>autoStart := a\<rparr>) = signs c"
  "signs (c\<lparr>timers := ts\<rparr>) = signs c"
  "signs (c\<lparr>next_id := k\<rparr>) = signs c"
  "signs (c\<lparr>now := t\<rparr>) = signs c"
  by (simp_all add: signs_def)

lemma clearInterval_eq:
  "clearInterval h c = c\<lparr>timers := filter (\<lambda>t. Some (tid t) \<noteq> h) (timers c)\<rparr>"
  by (cases h) (simp_all add: clearInterval_def)

lemma pause_eq:
  "pause c = c\<lparr>isPlaying := False, intervalRef := None,
               timers := filter (\<lambda>t. Some (tid t) \<noteq> intervalRef c) (timers c)\<rparr>"
  by (cases "intervalRef c") (simp_all add: pause_def clearInterval_eq)

lemma timer_cleanup_eq:
  "timer_cleanup c = c\<lparr>timers := filter (\<lambda>t. Some (tid t) \<noteq> intervalRef c) (timers c)\<rparr>"
  by (cases "intervalRef c") (simp_all add: timer_cleanup_def clearInterval_eq)

lemma timer_effect_eq:
  "timer_effect c =
     (if isPlaying c \<and> signs c \<noteq> []
      then c\<lparr>intervalRef := Some (next_id c),
             timers := timers c @ [\<lparr>tid = next_id c, due = now c + nat (speed c),
                                    repeat = Some (nat (speed c)), cb = TickCb (signs c)\<rparr>],
             next_id := next_id c + 1\<rparr>
      else c)"
  by (simp add: timer_effect_def setInterval_def)

lemma replay_eq:
  "replay c = c\<lparr>isPlaying := False, intervalRef := None, currentIndex := 0,
               timers := filter (\<lambda>t. Some (tid t) \<noteq> intervalRef c) (timers c)
                         @ [\<lparr>tid = next_id c, due = now c + 300, repeat = None, cb = PlayCb\<rparr>],
               next_id := next_id c + 1\<rparr>"
  by (simp add: replay_def pause_eq setTimeout_def)

lemma autostart_effect_eq:
  "autostart_effect c =
     (if signs c \<noteq> []
      then c\<lparr>autoStart := Some (next_id c),
             timers := timers c
                       @ [\<lparr>tid = next_id c, due = now c + 500, repeat = None, cb = PlayCb\<rparr>],
             next_id := next_id c + 1\<rparr>
      else c\<lparr>autoStart := None\<rparr>)"
  by (auto simp: autostart_effect_def setTimeout_def signs_def)

lemma index_commit [simp]: "currentIndex (commit old c) = currentIndex c"
  by (simp add: commit_def timer_cleanup_eq timer_effect_eq)

lemma data_commit [simp]: "data (commit old c) = data c"
  by (simp add: commit_def timer_cleanup_eq timer_effect_eq)

lemma signs_commit [simp]: "signs (commit old c) = signs c"
  by (simp add: signs_def)

lemma isPlaying_commit [simp]: "isPlaying (commit old c) = isPlaying c"
  by (simp add: commit_def timer_cleanup_eq timer_effect_eq)

lemma speed_commit [simp]: "speed (commit old c) = speed c"
  by (simp add: commit_def timer_cleanup_eq timer_effect_eq)

section \<open>The speed setting\<close>

lemma speed_load [simp]: "speed (load d c) = speed c"
  by (simp add: load_def Let_def timer_cleanup_eq timer_effect_eq autostart_effect_eq
      autostart_cleanup_def clearTimeout_def clearInterval_eq reset_effect_def)

lemma speed_nextSign: "nextSign c = Inr c' \<Longrightarrow> speed c' = speed c"
  by (auto simp: nextSign_def Let_def split: if_splits sum.splits)

lemma speed_prevSign: "prevSign c = Inr c' \<Longrightarrow> speed c' = speed c"
  by (auto simp: prevSign_def Let_def split: if_splits sum.splits)

lemma speed_tick: "tick sgs c = Inr c' \<Longrightarrow> speed c' = speed c"
  by (auto simp: tick_def Let_def clearInterval_eq split: if_splits sum.splits)

lemma speed_before_callback [simp]: "speed (before_callback t c) = speed c"
  by (simp add: before_callback_def clearTimeout_def clearInterval_eq split: option.splits)

lemma speed_run_callback: "run_callback f c = Inr c' \<Longrightarrow> speed c' = speed c"
  by (cases f) (auto simp: run_callback_def play_def dest: speed_tick split: sum.splits)

lemma speed_fire: "fire h c = Inr c' \<Longrightarrow> speed c' = speed c"
  by (auto simp: fire_def dest: speed_run_callback split: option.splits if_splits)

text \<open>
  Claim C10. Every event other than \<open>setSpeed\<close> that completes (a command, a new result,
  a timer callback, time passing) leaves \<open>speed\<close> as it was; so do in particular the load
  of a new result, which resets index and \<open>isPlaying\<close>, and \<open>replay\<close>.
\<close>

theorem speed_kept:
  assumes "step e c = Inr c'" and "\<forall>ms. e \<noteq> SetSpeed ms"
  shows "speed c' = speed c"
proof (cases e)
  case Next
  with assms show ?thesis by (auto dest: speed_nextSign split: sum.splits)
next
  case Prev
  with assms show ?thesis by (auto dest: speed_prevSign split: sum.splits)
next
  case (Fire h)
  with assms show ?thesis by (auto dest: speed_fire)
next
  case (SetSpeed ms)
  with assms show ?thesis by simp
qed (use assms in \<open>auto simp: play_def pause_eq replay_eq goToSign_def\<close>)

theorem speed_kept_witness:
  "step (Load (Some (result_of [sign_you]))) slowed = Inr (load (Some (result_of [sign_you])) slowed)
   \<and> speed (load (Some (result_of [sign_you])) slowed) = 2000
   \<and> step Replay slowed = Inr (commit slowed (replay slowed))
   \<and> speed (commit slowed (replay slowed)) = 2000"
proof -
  have s: "speed slowed = 2000" by (simp add: slowed_def)
  have a: "step (Load (Some (result_of [sign_you]))) slowed
             = Inr (load (Some (result_of [sign_you])) slowed)" by simp
  have b: "step Replay slowed = Inr (commit slowed (replay slowed))" by simp
  from speed_kept [OF a] speed_kept [OF b] s a b show ?thesis by simp
qed

section \<open>next\<close>

text \<open>
  The three outcomes of \<open>nextSign\<close> from an index of at least -1: it moves to the nearest
  visual index above; or it stands at or beyond the last index and pauses; or only
  \<open>Space\<close> signs follow, and it changes nothing.
\<close>

lemma nextSign_cases:
  assumes "- 1 \<le> currentIndex c"
  shows "(\<exists>r. nextSign c = Inr (c\<lparr>currentIndex := r\<rparr>) \<and> currentIndex c < r
              \<and> visual (signs c) r
              \<and> (\<forall>j. currentIndex c < j \<and> j < r \<longrightarrow> \<not> visual (signs c) j))
         \<or> nextSign c = Inr (c\<lparr>isPlaying := False\<rparr>)
              \<and> int (length (signs c)) - 1 \<le> currentIndex c
         \<or> nextSign c = Inr c \<and> currentIndex c < int (length (signs c)) - 1
              \<and> (\<forall>j. currentIndex c < j \<longrightarrow> \<not> visual (signs c) j)"
proof (cases "int (length (signs c)) - 1 \<le> currentIndex c")
  case True
  then show ?thesis by (simp add: nextSign_def)
next
  case False
  from assms have "0 \<le> currentIndex c + 1" by simp
  from skip_forward_result [OF this, of "signs c"] False
  obtain m where m: "skip_forward (signs c) (currentIndex c + 1) = Inr m"
    "currentIndex c + 1 \<le> m" "m \<le> int (length (signs c))"
    "m < int (length (signs c)) \<longrightarrow> visual (signs c) m"
    "\<forall>j. currentIndex c + 1 \<le> j \<and> j < m \<longrightarrow> \<not> visual (signs c) j"
    by auto
  show ?thesis
  proof (cases "m < int (length (signs c))")
    case True
    with m False have "nextSign c = Inr (c\<lparr>currentIndex := m\<rparr>)"
      by (simp add: nextSign_def)
    moreover have "\<forall>j. currentIndex c < j \<and> j < m \<longrightarrow> \<not> visual (signs c) j"
      using m(5) by simp
    ultimately show ?thesis using m(2,4) True by auto
  next
    case beyond: False
    with m False have "nextSign c = Inr c"
      by (simp add: nextSign_def)
    moreover have "\<not> visual (signs c) j" if "currentIndex c < j" for j
    proof (cases "j < m")
      case True
      with that m(5) show ?thesis by simp
    next
      case False
      with beyond show ?thesis by (simp add: visual_def)
    qed
    ultimately show ?thesis using False by auto
  qed
qed

text \<open>
  Claim C6, at the input where the code departs from it. The result \<open>you |\<close> is playing
  at index 0 (reached by loading it and letting the auto-start fire). No visual sign
  follows index 0, so \<open>next\<close> should keep the index and pause; it keeps the index and
  goes on playing: the state is unchanged.
\<close>

theorem next_does_not_pause:
  "run [Load (Some (result_of [sign_you, sign_gap])), Elapse 500, Fire 1] initial
     = Inr before_trailing_gap
   \<and> isPlaying before_trailing_gap \<and> currentIndex before_trailing_gap = 0
   \<and> signs before_trailing_gap = [sign_you, sign_gap]
   \<and> \<not> visual (signs before_trailing_gap) 1
   \<and> step Next before_trailing_gap = Inr before_trailing_gap"
  by code_simp

text \<open>
  Claim C2, at the input where the code departs from it. In the same state the tick of
  the interval (due at 1500) pauses at index 0, while \<open>next\<close> leaves the machine playing:
  the two transitions give different \<open>(currentIndex, isPlaying)\<close> pairs.
\<close>

theorem tick_pauses_next_does_not:
  "run [Load (Some (result_of [sign_you, sign_gap])), Elapse 500, Fire 1] initial
     = Inr before_trailing_gap
   \<and> observe (run [Elapse 1000, Fire 2] before_trailing_gap) = Inr (0, False)
   \<and> observe (run [Next] before_trailing_gap) = Inr (0, True)"
  by code_simp

text \<open>
  Elsewhere the two agree: from an index of at least -1 that is at or beyond the last
  index, or that has a visual sign somewhere above it, the interval callback and
  \<open>nextSign\<close> give the same index and the same \<open>isPlaying\<close>.
\<close>

lemma tick_matches_next:
  assumes "- 1 \<le> currentIndex c"
    and "int (length (signs c)) - 1 \<le> currentIndex c
         \<or> (\<exists>j. currentIndex c < j \<and> visual (signs c) j)"
  shows "observe (tick (signs c) c) = observe (nextSign c)"
proof -
  from assms(1) have "0 \<le> currentIndex c + 1" by simp
  from skip_forward_result [OF this, of "signs c"]
  obtain m where m: "skip_forward (signs c) (currentIndex c + 1) = Inr m"
    "currentIndex c + 1 \<le> m" "m < int (length (signs c)) \<longrightarrow> visual (signs c) m"
    "\<forall>j. currentIndex c + 1 \<le> j \<and> j < m \<longrightarrow> \<not> visual (signs c) j"
    by auto
  show ?thesis
  proof (cases "int (length (signs c)) - 1 \<le> currentIndex c")
    case True
    with m(1,2) show ?thesis
      by (simp add: tick_def nextSign_def observe_def clearInterval_eq)
  next
    case False
    with assms(2) obtain j where j: "currentIndex c < j" "visual (signs c) j" by blast
    have "m < int (length (signs c))"
    proof (rule ccontr)
      assume "\<not> m < int (length (signs c))"
      with j have "currentIndex c + 1 \<le> j \<and> j < m" by (simp add: visual_def)
      with m(4) j(2) show False by blast
    qed
    with m(1) False show ?thesis
      by (simp add: tick_def nextSign_def observe_def)
  qed
qed

section \<open>seek and next never clamp\<close>

text \<open>
  Claim C4 as stated fails: \<open>seek(7)\<close> on a sequence of three signs stores 7, which is
  outside \<open>[0, length - 1]\<close>.
\<close>

theorem seek_not_clamped:
  "step (Seek 7) at_second_word = Inr (at_second_word\<lparr>currentIndex := 7\<rparr>)
   \<and> int (length (signs at_second_word)) = 3
   \<and> \<not> currentIndex (at_second_word\<lparr>currentIndex := 7\<rparr>)
         \<le> int (length (signs at_second_word)) - 1"
  by code_simp

text \<open>
  Claim C4, amended. \<open>seek(index)\<close> never fails and stores the index it is given, in
  range or not. \<open>next\<close> never fails from an index of at least -1; from an index within
  \<open>[0, length - 1]\<close> it leaves the index within \<open>[0, length - 1]\<close>; at or beyond the last
  index it leaves the index unchanged.
\<close>

theorem seek_stores_next_stays:
  "(\<exists>c'. step (Seek index) c = Inr c' \<and> currentIndex c' = index \<and> signs c' = signs c)
   \<and> (- 1 \<le> currentIndex c \<longrightarrow> (\<exists>c'. step Next c = Inr c' \<and> signs c' = signs c))
   \<and> (0 \<le> currentIndex c \<and> currentIndex c \<le> int (length (signs c)) - 1 \<longrightarrow>
        (\<exists>c'. step Next c = Inr c' \<and> 0 \<le> currentIndex c'
              \<and> currentIndex c' \<le> int (length (signs c)) - 1))
   \<and> (int (length (signs c)) - 1 \<le> currentIndex c \<longrightarrow>
        (\<exists>c'. step Next c = Inr c' \<and> currentIndex c' = currentIndex c))"
proof (intro conjI impI)
  show "\<exists>c'. step (Seek index) c = Inr c' \<and> currentIndex c' = index \<and> signs c' = signs c"
    by (simp add: goToSign_def)
next
  assume "- 1 \<le> currentIndex c"
  from nextSign_cases [OF this]
  show "\<exists>c'. step Next c = Inr c' \<and> signs c' = signs c"
    by auto
next
  assume range: "0 \<le> currentIndex c \<and> currentIndex c \<le> int (length (signs c)) - 1"
  then have "- 1 \<le> currentIndex c" by simp
  from nextSign_cases [OF this] range
  show "\<exists>c'. step Next c = Inr c' \<and> 0 \<le> currentIndex c'
              \<and> currentIndex c' \<le> int (length (signs c)) - 1"
    by (auto simp: visual_def)
next
  assume "int (length (signs c)) - 1 \<le> currentIndex c"
  then show "\<exists>c'. step Next c = Inr c' \<and> currentIndex c' = currentIndex c"
    by (simp add: nextSign_def)
qed

theorem seek_stores_next_stays_witness:
  "- 1 \<le> currentIndex at_second_word \<and> 0 \<le> currentIndex at_second_word
   \<and> currentIndex at_second_word \<le> int (length (signs at_second_word)) - 1
   \<and> int (length (signs at_second_word)) - 1 \<le> currentIndex at_second_word
   \<and> (\<exists>c'. step (Seek 7) at_second_word = Inr c' \<and> currentIndex c' = 7)
   \<and> (\<exists>c'. step Next at_second_word = Inr c' \<and> currentIndex c' = 2)"
proof -
  have i: "currentIndex at_second_word = 2" and l: "int (length (signs at_second_word)) = 3"
    by code_simp+
  from seek_stores_next_stays [of 7 at_second_word] i l show ?thesis
    by auto
qed

section \<open>A timeout that outlives pause\<close>

text \<open>
  Claim C9, at the input where the code departs from it. The result \<open>you N\<close> is loaded
  and starts playing at time 500. \<open>replay\<close> at 500 schedules \<open>play\<close> for 800 and nothing
  ever clears that timeout; \<open>play\<close> at 600 and \<open>pause\<close> at 700 follow. After the pause the
  machine is paused with the timeout of \<open>replay\<close> still pending, and at 800 its callback
  sets \<open>isPlaying\<close> again. The same timeout outlives a new result loaded at 600: at 800
  it starts the new result, whose own auto-start is due at 1100.
\<close>

theorem replay_timeout_survives_pause:
  "run [Load (Some (result_of [sign_you, sign_n])), Elapse 500, Fire 1, Replay, Elapse 100,
        Play, Elapse 100, Pause] initial = Inr paused_after_replay
   \<and> timers paused_after_replay = [\<lparr>tid = 3, due = 800, repeat = None, cb = PlayCb\<rparr>]
   \<and> observe (Inr paused_after_replay) = Inr (0, False)
   \<and> observe (run [Elapse 100, Fire 3] paused_after_replay) = Inr (0, True)
   \<and> observe (run [Load (Some (result_of [sign_you, sign_n])), Elapse 500, Fire 1, Replay,
                     Elapse 100, Load (Some (result_of [sign_you]))] initial) = Inr (0, False)
   \<and> observe (run [Load (Some (result_of [sign_you, sign_n])), Elapse 500, Fire 1, Replay,
                     Elapse 100, Load (Some (result_of [sign_you])), Elapse 200, Fire 3] initial)
       = Inr (0, True)"
  by code_simp

section \<open>The index stays on a visual sign\<close>

lemma starts_visual_0: "starts_visual sgs \<Longrightarrow> sgs \<noteq> [] \<Longrightarrow> visual sgs 0"
  by (cases sgs) (simp_all add: starts_visual_def visual_def)

lemma visual_index_0: "starts_visual (signs c) \<Longrightarrow> currentIndex c = 0 \<Longrightarrow> visual_index c"
  using starts_visual_0 [of "signs c"] by (auto simp: visual_index_def)

lemma visual_index_nonneg: "visual_index c \<Longrightarrow> 0 \<le> currentIndex c"
  by (auto simp: visual_index_def visual_def)

lemma visual_index_in_range: "visual_index c \<Longrightarrow> currentIndex c \<le> int (length (signs c))"
  by (auto simp: visual_index_def visual_def)

lemma steady_cong:
  "signs c' = signs c \<Longrightarrow> currentIndex c' = currentIndex c \<Longrightarrow> timers c' = timers c \<Longrightarrow>
   intervalRef c' = intervalRef c \<Longrightarrow> steady c' = steady c"
  by (simp add: steady_def visual_index_def ticks_current_def)

lemma steady_initial: "steady initial"
  by (simp add: steady_def visual_index_def ticks_current_def starts_visual_def initial_def signs_def)

text \<open>Clearing the handle of the ref removes every interval.\<close>

lemma steady_cleared:
  assumes "steady c"
    and "signs c' = signs c" and "currentIndex c' = currentIndex c"
    and "set (timers c') \<subseteq> {t \<in> set (timers c). Some (tid t) \<noteq> intervalRef c}"
  shows "steady c'"
  using assms unfolding steady_def visual_index_def ticks_current_def by fastforce

lemma steady_timer_cleanup: "steady c \<Longrightarrow> steady (timer_cleanup c)"
  by (rule steady_cleared [of c]) (simp_all add: timer_cleanup_eq)

lemma no_ticks_timer_cleanup:
  "steady c \<Longrightarrow> t \<in> set (timers (timer_cleanup c)) \<Longrightarrow> cb t = PlayCb"
  by (cases "cb t") (auto simp: timer_cleanup_eq steady_def ticks_current_def)

lemma steady_commit:
  assumes "steady c'"
  shows "steady (commit c c')"
proof (cases "isPlaying c' \<noteq> isPlaying c \<or> speed c' \<noteq> speed c")
  case False
  with assms show ?thesis by (simp add: commit_def)
next
  case True
  let ?k = "timer_cleanup c'"
  have k: "steady ?k" using assms by (rule steady_timer_cleanup)
  have plays: "\<forall>t\<in>set (timers ?k). cb t = PlayCb"
    using no_ticks_timer_cleanup [OF assms] by blast
  have "steady (timer_effect ?k)"
  proof (cases "isPlaying ?k \<and> signs ?k \<noteq> []")
    case False
    with k show ?thesis by (auto simp: timer_effect_eq)
  next
    case True
    with k plays show ?thesis
      by (auto simp: timer_effect_eq steady_def visual_index_def ticks_current_def)
  qed
  with True show ?thesis by (simp add: commit_def)
qed

lemma steady_play: "steady c \<Longrightarrow> steady (play c)"
  by (simp add: play_def steady_cong [of "c\<lparr>isPlaying := True\<rparr>" c])

lemma steady_pause: "steady c \<Longrightarrow> steady (pause c)"
  by (rule steady_cleared [of c]) (auto simp: pause_eq)

lemma steady_replay: "steady c \<Longrightarrow> steady (replay c)"
proof -
  assume s: "steady c"
  let ?k = "c\<lparr>timers := filter (\<lambda>t. Some (tid t) \<noteq> intervalRef c) (timers c)\<rparr>"
  have "steady ?k" using s by (rule steady_cleared) auto
  moreover have "\<forall>t\<in>set (timers ?k). cb t = PlayCb"
  proof
    fix t assume "t \<in> set (timers ?k)"
    with s show "cb t = PlayCb"
      by (cases "cb t") (auto simp: steady_def ticks_current_def)
  qed
  ultimately show ?thesis
    using visual_index_0 [of "replay c"]
    by (auto simp: replay_eq steady_def ticks_current_def)
qed

lemma steady_seek: "steady c \<Longrightarrow> visual (signs c) i \<Longrightarrow> steady (goToSign i c)"
  by (simp add: goToSign_def steady_def visual_index_def ticks_current_def)

lemma steady_index: "steady c \<Longrightarrow> visual (signs c) r \<Longrightarrow> steady (c\<lparr>currentIndex := r\<rparr>)"
  by (simp add: steady_def visual_index_def ticks_current_def)

lemma steady_nextSign:
  assumes "steady c"
  shows "\<exists>c'. nextSign c = Inr c' \<and> steady c'"
proof -
  from assms have "- 1 \<le> currentIndex c"
    using visual_index_nonneg [of c] by (simp add: steady_def)
  from nextSign_cases [OF this] show ?thesis
  proof (elim disjE exE conjE)
    fix r assume "nextSign c = Inr (c\<lparr>currentIndex := r\<rparr>)" "visual (signs c) r"
    with assms show ?thesis by (simp add: steady_index)
  next
    assume "nextSign c = Inr (c\<lparr>isPlaying := False\<rparr>)"
    with assms show ?thesis by (simp add: steady_cong [of "c\<lparr>isPlaying := False\<rparr>" c])
  next
    assume "nextSign c = Inr c"
    with assms show ?thesis by simp
  qed
qed

lemma steady_prevSign:
  assumes "steady c"
  shows "\<exists>c'. prevSign c = Inr c' \<and> steady c'"
proof -
  from assms have "currentIndex c \<le> int (length (signs c))"
    using visual_index_in_range [of c] by (simp add: steady_def)
  from prevSign_result [OF this]
  obtain r where r: "prevSign c = Inr (c\<lparr>currentIndex := r\<rparr>)" "visual (signs c) r \<or> r = 0"
    by blast
  from r(2) have "steady (c\<lparr>currentIndex := r\<rparr>)"
  proof
    assume "visual (signs c) r"
    with assms show ?thesis by (rule steady_index)
  next
    assume "r = 0"
    with assms visual_index_0 [of "c\<lparr>currentIndex := r\<rparr>"] show ?thesis
      by (simp add: steady_def ticks_current_def)
  qed
  with r(1) show ?thesis by simp
qed

lemma steady_tick:
  assumes "steady c"
  shows "\<exists>c'. tick (signs c) c = Inr c' \<and> steady c'"
proof -
  from assms have "0 \<le> currentIndex c + 1"
    using visual_index_nonneg [of c] by (simp add: steady_def)
  from skip_forward_result [OF this, of "signs c"]
  obtain m where m: "skip_forward (signs c) (currentIndex c + 1) = Inr m"
    "m < int (length (signs c)) \<longrightarrow> visual (signs c) m"
    by auto
  show ?thesis
  proof (cases "m < int (length (signs c))")
    case True
    with m have "tick (signs c) c = Inr (c\<lparr>currentIndex := m\<rparr>)" "visual (signs c) m"
      by (simp_all add: tick_def)
    with assms show ?thesis by (simp add: steady_index)
  next
    case False
    with m have "tick (signs c) c = Inr (clearInterval (intervalRef c) (c\<lparr>isPlaying := False\<rparr>))"
      by (simp add: tick_def)
    moreover have "steady (clearInterval (intervalRef c) (c\<lparr>isPlaying := False\<rparr>))"
      using assms by (rule steady_cleared) (auto simp: clearInterval_eq)
    ultimately show ?thesis by simp
  qed
qed

lemma steady_before_callback:
  assumes "steady c"
  shows "steady (before_callback t c)"
proof (cases "repeat t")
  case None
  have "steady (c\<lparr>timers := filter (\<lambda>u. tid u \<noteq> tid t) (timers c)\<rparr>)"
    using assms unfolding steady_def visual_index_def ticks_current_def by auto
  with None show ?thesis
    by (simp add: before_callback_def clearTimeout_def clearInterval_def)
next
  case (Some p)
  have "steady (c\<lparr>timers := map (reschedule (tid t) (now c + p)) (timers c)\<rparr>)"
    using assms unfolding steady_def visual_index_def ticks_current_def
    by (auto simp: reschedule_def)
  with Some show ?thesis
    by (simp add: before_callback_def)
qed

lemma signs_before_callback [simp]: "signs (before_callback t c) = signs c"
  by (simp add: before_callback_def clearTimeout_def clearInterval_eq signs_def split: option.splits)

lemma steady_run_callback:
  assumes "steady c" and "\<forall>sgs. f = TickCb sgs \<longrightarrow> sgs = signs c"
  shows "\<exists>c'. run_callback f c = Inr c' \<and> steady c'"
proof (cases f)
  case PlayCb
  with assms show ?thesis
    by (simp add: run_callback_def steady_commit steady_play)
next
  case (TickCb sgs)
  with assms have "sgs = signs c" by simp
  with steady_tick [OF assms(1)] TickCb show ?thesis
    by (auto simp: run_callback_def steady_commit)
qed

lemma steady_fire:
  assumes "steady c"
  shows "\<exists>c'. fire h c = Inr c' \<and> steady c'"
proof (cases "find (\<lambda>t. tid t = h) (timers c)")
  case None
  with assms show ?thesis by (simp add: fire_def)
next
  case (Some t)
  then have "t \<in> set (timers c)"
    by (auto simp: find_Some_iff)
  with assms have "\<forall>sgs. cb t = TickCb sgs \<longrightarrow> sgs = signs (before_callback t c)"
    by (simp add: steady_def ticks_current_def)
  from steady_run_callback [OF steady_before_callback [OF assms] this] assms Some
  show ?thesis by (auto simp: fire_def)
qed

lemma signs_data [simp]: "signs (c\<lparr>data := d\<rparr>) = (case d of None \<Rightarrow> [] | Some r \<Rightarrow> data_signs r)"
  by (simp add: signs_def)

lemma load_no_signs:
  assumes "(case d of None \<Rightarrow> [] | Some r \<Rightarrow> data_signs r) = []" and "d \<noteq> None \<or> data c \<noteq> None"
  shows "load d c =
           c\<lparr>data := d, currentIndex := 0, isPlaying := False, autoStart := None,
             timers := filter (\<lambda>t. Some (tid t) \<noteq> intervalRef c \<and> Some (tid t) \<noteq> autoStart c)
                         (timers c)\<rparr>"
  using assms
  by (cases d; cases "data c")
     (simp_all add: load_def Let_def timer_cleanup_eq timer_effect_eq autostart_effect_eq
        autostart_cleanup_def clearTimeout_def clearInterval_eq reset_effect_def commit_def
        conj_commute cong: conj_cong)

lemma load_paused:
  assumes "data_signs r \<noteq> []" and "\<not> isPlaying c"
  shows "load (Some r) c =
           c\<lparr>data := Some r, currentIndex := 0, isPlaying := False,
             autoStart := Some (next_id c),
             timers := filter (\<lambda>t. Some (tid t) \<noteq> intervalRef c \<and> Some (tid t) \<noteq> autoStart c)
                         (timers c)
                       @ [\<lparr>tid = next_id c, due = now c + 500, repeat = None, cb = PlayCb\<rparr>],
             next_id := next_id c + 1\<rparr>"
  using assms
  by (simp add: load_def Let_def timer_cleanup_eq timer_effect_eq autostart_effect_eq
      autostart_cleanup_def clearTimeout_def clearInterval_eq reset_effect_def commit_def
      conj_commute cong: conj_cong)

lemma load_playing:
  assumes "data_signs r \<noteq> []" and "isPlaying c"
  shows "load (Some r) c =
           c\<lparr>data := Some r, currentIndex := 0, isPlaying := False,
             intervalRef := Some (next_id c), autoStart := Some (next_id c + 1),
             timers := filter (\<lambda>t. tid t \<noteq> next_id c \<and> Some (tid t) \<noteq> intervalRef c
                                   \<and> Some (tid t) \<noteq> autoStart c) (timers c)
                       @ [\<lparr>tid = next_id c + 1, due = now c + 500, repeat = None, cb = PlayCb\<rparr>],
             next_id := next_id c + 2\<rparr>"
  using assms
  by (simp add: load_def Let_def timer_cleanup_eq timer_effect_eq autostart_effect_eq
      autostart_cleanup_def clearTimeout_def clearInterval_eq reset_effect_def commit_def
      conj_commute conj_left_commute cong: conj_cong)

lemma steady_load:
  assumes "steady c" and "permitted (Load d) c"
  shows "steady (load d c)"
proof -
  have plays: "cb t = PlayCb" if "t \<in> set (timers c)" "Some (tid t) \<noteq> intervalRef c" for t
    using that assms(1) by (cases "cb t") (auto simp: steady_def ticks_current_def)
  consider (same) "d = None" "data c = None"
    | (none) "(case d of None \<Rightarrow> [] | Some r \<Rightarrow> data_signs r) = []" "d \<noteq> None \<or> data c \<noteq> None"
    | (paused) r where "d = Some r" "data_signs r \<noteq> []" "\<not> isPlaying c"
    | (playing) r where "d = Some r" "data_signs r \<noteq> []" "isPlaying c"
    by (cases d) auto
  then show ?thesis
  proof cases
    case same
    with assms show ?thesis by (simp add: load_def)
  next
    case none
    show ?thesis
      unfolding load_no_signs [OF none] steady_def visual_index_def ticks_current_def
      using none(1) plays by (auto simp: starts_visual_def)
  next
    case paused
    from assms(2) paused have "visual (data_signs r) 0"
      by (simp add: starts_visual_0)
    with assms(2) paused(1) plays show ?thesis
      unfolding paused(1) load_paused [OF paused(2,3)] steady_def visual_index_def ticks_current_def
      by auto
  next
    case playing
    from assms(2) playing have "visual (data_signs r) 0"
      by (simp add: starts_visual_0)
    with assms(2) playing(1) plays show ?thesis
      unfolding playing(1) load_playing [OF playing(2,3)] steady_def visual_index_def ticks_current_def
      by auto
  qed
qed

lemma steady_step:
  assumes "steady c" and "permitted e c"
  shows "\<exists>c'. step e c = Inr c' \<and> steady c'"
proof (cases e)
  case Play
  with assms show ?thesis by (simp add: steady_commit steady_play)
next
  case Pause
  with assms show ?thesis by (simp add: steady_commit steady_pause)
next
  case Next
  with steady_nextSign [OF assms(1)] show ?thesis by (auto simp: steady_commit)
next
  case Prev
  with steady_prevSign [OF assms(1)] show ?thesis by (auto simp: steady_commit)
next
  case Replay
  with assms show ?thesis by (simp add: steady_commit steady_replay)
next
  case (Seek i)
  with assms show ?thesis by (simp add: steady_commit steady_seek)
next
  case (SetSpeed ms)
  with assms show ?thesis
    by (simp add: steady_commit steady_cong [of "c\<lparr>speed := ms\<rparr>" c])
next
  case (Load d)
  with assms show ?thesis by (simp add: steady_load)
next
  case (Fire h)
  with steady_fire [OF assms(1)] show ?thesis by simp
next
  case (Elapse d)
  with assms show ?thesis by (simp add: steady_cong [of "c\<lparr>now := now c + d\<rparr>" c])
qed

lemma reachable_steady: "reachable c \<Longrightarrow> steady c"
proof (induction rule: reachable.induct)
  case reachable_initial
  show ?case by (rule steady_initial)
next
  case (reachable_step c e c')
  from steady_step [OF reachable_step.IH reachable_step.hyps(2)] reachable_step.hyps(3)
  show ?case by simp
qed

subsection \<open>Cancelled intervals\<close>

text \<open>
  Intervals are cancelled as claim C9 asks: in a state where every pending interval is the
  one held by the ref, no interval callback is pending after \<open>pause\<close> or after the load of
  a new result. What remains pending are timeouts that call \<open>play\<close>.
\<close>

lemma pause_cancels_ticks:
  assumes "ticks_current c" and "t \<in> set (timers (pause c))"
  shows "cb t = PlayCb"
  using assms by (cases "cb t") (auto simp: pause_eq ticks_current_def)

lemma load_cancels_ticks:
  assumes "steady c" and "permitted (Load d) c" and "d \<noteq> None \<or> data c \<noteq> None"
    and "t \<in> set (timers (load d c))"
  shows "cb t = PlayCb"
proof -
  have plays: "cb u = PlayCb" if "u \<in> set (timers c)" "Some (tid u) \<noteq> intervalRef c" for u
    using that assms(1) by (cases "cb u") (auto simp: steady_def ticks_current_def)
  consider (none) "(case d of None \<Rightarrow> [] | Some r \<Rightarrow> data_signs r) = []"
    | (paused) r where "d = Some r" "data_signs r \<noteq> []" "\<not> isPlaying c"
    | (playing) r where "d = Some r" "data_signs r \<noteq> []" "isPlaying c"
    by (cases d) auto
  then show ?thesis
  proof cases
    case none
    with assms(3,4) plays show ?thesis by (auto simp: load_no_signs)
  next
    case paused
    with assms(4) plays show ?thesis by (auto simp: load_paused)
  next
    case playing
    with assms(4) plays show ?thesis by (auto simp: load_playing)
  qed
qed

subsection \<open>The invariant on reachable states\<close>

text \<open>
  Claim C1 as stated fails twice: \<open>seek\<close> to the index of a \<open>Space\<close> leaves the index
  there, and loading a result whose first sign is a \<open>Space\<close> parks the index on it.
\<close>

theorem index_parked_on_space:
  "visual_index (load (Some (result_of [sign_you, sign_gap, sign_n])) initial)
   \<and> step (Seek 1) (load (Some (result_of [sign_you, sign_gap, sign_n])) initial)
       = Inr ((load (Some (result_of [sign_you, sign_gap, sign_n])) initial)\<lparr>currentIndex := 1\<rparr>)
   \<and> \<not> visual_index
         ((load (Some (result_of [sign_you, sign_gap, sign_n])) initial)\<lparr>currentIndex := 1\<rparr>)
   \<and> \<not> visual_index (load (Some (result_of [sign_gap, sign_you])) initial)"
  by code_simp

text \<open>
  Claim C1, amended. When every loaded result is empty or begins with a visual sign and
  \<open>seek\<close> is only applied to visual indices, then in every state reached from the mounted
  component by commands, new results, timer callbacks and the passing of time the index
  denotes a visual sign, or is 0 on an empty sequence; and every such event completes
  without an error in a state where this holds again.
\<close>

theorem reachable_index_visual:
  assumes "reachable c"
  shows "visual_index c \<and> (\<forall>e. permitted e c \<longrightarrow> (\<exists>c'. step e c = Inr c' \<and> visual_index c'))"
proof -
  from assms have s: "steady c" by (rule reachable_steady)
  then have "visual_index c" by (simp add: steady_def)
  moreover have "\<exists>c'. step e c = Inr c' \<and> visual_index c'" if "permitted e c" for e
    using steady_step [OF s that] by (auto simp: steady_def)
  ultimately show ?thesis by blast
qed

theorem reachable_index_visual_witness:
  "reachable three_loaded \<and> visual_index three_loaded \<and> permitted Next three_loaded
   \<and> (\<exists>c'. step Next three_loaded = Inr c' \<and> visual_index c')"
proof -
  have "permitted (Load (Some (result_of [sign_you, sign_gap, sign_n]))) initial"
    by (simp add: starts_visual_def result_of_def sign_you_def)
  moreover have "step (Load (Some (result_of [sign_you, sign_gap, sign_n]))) initial
                   = Inr three_loaded"
    by (simp add: three_loaded_def)
  ultimately have r: "reachable three_loaded"
    using reachable_initial by (rule reachable_step [rotated])
  have p: "permitted Next three_loaded" by simp
  from reachable_index_visual [OF r] r p show ?thesis by blast
qed

section \<open>Changing the speed\<close>

text \<open>
  Claim C8 as stated fails. The result \<open>you N\<close> has been playing since time 500 with a
  tick pending for 1500. \<open>setSpeed(2000)\<close> at time 900 removes that tick and starts a new
  interval whose first tick is due at 2900: at 1500 the old tick would have moved the
  index to 1, but after the change nothing fires and the index is still 0.
\<close>

theorem setSpeed_cancels_pending_tick:
  "run [Load (Some (result_of [sign_you, sign_n])), Elapse 500, Fire 1, Elapse 400] initial
     = Inr mid_interval
   \<and> step (SetSpeed 2000) mid_interval
       = Inr (mid_interval\<lparr>speed := 2000, intervalRef := Some 3,
               timers := [\<lparr>tid = 3, due = 2900, repeat = Some 2000,
                             cb = TickCb [sign_you, sign_n]\<rparr>],
               next_id := 4\<rparr>)
   \<and> observe (run [Elapse 600, Fire 2] mid_interval) = Inr (1, True)
   \<and> observe (run [SetSpeed 2000, Elapse 600, Fire 2] mid_interval) = Inr (0, True)"
  by code_simp

text \<open>
  Claim C8, amended. \<open>setSpeed(ms)\<close> never fails, sets \<open>speed\<close> to \<open>ms\<close> and leaves
  \<open>currentIndex\<close>, \<open>isPlaying\<close> and the loaded result unchanged; selecting the current
  speed changes nothing at all. While playing a non-empty sequence a changed speed takes
  effect at once: the interval held by the ref is cancelled, its pending tick with it, and
  a new interval with the new period is started, whose first tick is due one new period
  after the change. Otherwise a changed speed starts no timer.
\<close>

theorem setSpeed_restarts_interval:
  "\<exists>c'. step (SetSpeed ms) c = Inr c' \<and> speed c' = ms \<and> currentIndex c' = currentIndex c
        \<and> isPlaying c' = isPlaying c \<and> data c' = data c
        \<and> (ms = speed c \<longrightarrow> c' = c)
        \<and> (ms \<noteq> speed c \<and> isPlaying c \<and> signs c \<noteq> [] \<longrightarrow>
             intervalRef c' = Some (next_id c)
             \<and> timers c' = filter (\<lambda>t. Some (tid t) \<noteq> intervalRef c) (timers c)
                            @ [\<lparr>tid = next_id c, due = now c + nat ms, repeat = Some (nat ms),
                                 cb = TickCb (signs c)\<rparr>])
        \<and> (ms \<noteq> speed c \<and> \<not> (isPlaying c \<and> signs c \<noteq> []) \<longrightarrow>
             intervalRef c' = intervalRef c
             \<and> timers c' = filter (\<lambda>t. Some (tid t) \<noteq> intervalRef c) (timers c))"
proof (cases "ms = speed c")
  case True
  then show ?thesis by simp
next
  case False
  then have "step (SetSpeed ms) c = Inr (timer_effect (timer_cleanup (c\<lparr>speed := ms\<rparr>)))"
    by (simp add: commit_def)
  with False show ?thesis
    by (auto simp: timer_cleanup_eq timer_effect_eq)
qed

theorem setSpeed_restarts_interval_witness:
  "2000 \<noteq> speed mid_interval \<and> isPlaying mid_interval \<and> signs mid_interval \<noteq> []
   \<and> (\<exists>c'. step (SetSpeed 2000) mid_interval = Inr c' \<and> speed c' = 2000
          \<and> currentIndex c' = 0 \<and> isPlaying c'
          \<and> timers c' = [\<lparr>tid = 3, due = 2900, repeat = Some 2000,
                           cb = TickCb [sign_you, sign_n]\<rparr>])"
proof -
  have h: "2000 \<noteq> speed mid_interval \<and> isPlaying mid_interval \<and> signs mid_interval \<noteq> []"
    by code_simp
  have v: "currentIndex mid_interval = 0" "next_id mid_interval = 3" "now mid_interval = 900"
    "signs mid_interval = [sign_you, sign_n]"
    "filter (\<lambda>t. Some (tid t) \<noteq> intervalRef mid_interval) (timers mid_interval) = []"
    by code_simp+
  from setSpeed_restarts_interval [of 2000 mid_interval] h v show ?thesis
    by auto
qed

section \<open>Loading a new result\<close>

lemma find_last:
  "\<forall>x\<in>set xs. \<not> P x \<Longrightarrow> P y \<Longrightarrow> find P (xs @ [y]) = Some y"
  by (induction xs) simp_all

lemma fire_timeout:
  assumes "timers c = old @ [\<lparr>tid = h, due = d, repeat = None, cb = PlayCb\<rparr>]"
    and "\<forall>t\<in>set old. tid t \<noteq> h" and "d \<le> now c"
  shows "fire h c = Inr (commit (c\<lparr>timers := old\<rparr>) (c\<lparr>timers := old, isPlaying := True\<rparr>))"
proof -
  have "find (\<lambda>t. tid t = h) (timers c) = Some \<lparr>tid = h, due = d, repeat = None, cb = PlayCb\<rparr>"
    unfolding assms(1) using assms(2) by (intro find_last) simp_all
  moreover have "filter (\<lambda>t. tid t \<noteq> h) (timers c) = old"
    unfolding assms(1) using assms(2) by (simp add: filter_id_conv)
  ultimately show ?thesis
    using assms(3)
    by (simp add: fire_def before_callback_def run_callback_def clearTimeout_def
        clearInterval_def play_def)
qed

lemma timers_commit:
  "t \<in> set (timers (commit old c)) \<Longrightarrow> t \<in> set (timers c) \<or> tid t = next_id c"
  by (auto simp: commit_def timer_cleanup_eq timer_effect_eq split: if_splits)

lemma start_after_load:
  assumes "fresh_ids c" and "next_id c \<le> h"
    and L: "L = c\<lparr>data := Some r, currentIndex := 0, isPlaying := False, intervalRef := i,
                  autoStart := Some h,
                  timers := filter Q (timers c)
                            @ [\<lparr>tid = h, due = now c + 500, repeat = None, cb = PlayCb\<rparr>],
                  next_id := h + 1\<rparr>"
  shows "\<exists>c''. run [Elapse 500, Fire h] L = Inr c'' \<and> isPlaying c'' \<and> currentIndex c'' = 0
              \<and> (\<forall>t\<in>set (timers c''). tid t \<noteq> h)"
proof -
  let ?E = "L\<lparr>now := now L + 500\<rparr>"
  let ?old = "filter Q (timers c)"
  have old: "\<forall>t\<in>set ?old. tid t \<noteq> h"
    using assms(1,2) by (auto simp: fresh_ids_def)
  have "timers ?E = ?old @ [\<lparr>tid = h, due = now c + 500, repeat = None, cb = PlayCb\<rparr>]"
    and "now c + 500 \<le> now ?E"
    by (simp_all add: L)
  from fire_timeout [OF this(1) old this(2)]
  have f: "fire h ?E = Inr (commit (?E\<lparr>timers := ?old\<rparr>) (?E\<lparr>timers := ?old, isPlaying := True\<rparr>))" .
  let ?F = "commit (?E\<lparr>timers := ?old\<rparr>) (?E\<lparr>timers := ?old, isPlaying := True\<rparr>)"
  have "tid t \<noteq> h" if "t \<in> set (timers ?F)" for t
    using timers_commit [OF that] old by (auto simp: L)
  moreover have "isPlaying ?F" "currentIndex ?F = 0"
    by (simp_all add: L)
  ultimately show ?thesis
    using f by simp
qed

text \<open>
  Claim C3 as stated fails: a result whose only sign is a \<open>Space\<close> has no visual sign,
  yet loading it schedules the auto-start, and at time 500 the machine is playing.
\<close>

theorem autostart_without_visual_sign:
  "filter (\<lambda>s. type s \<noteq> Space) (data_signs (result_of [sign_gap])) = []
   \<and> load (Some (result_of [sign_gap])) initial
       = initial\<lparr>data := Some (result_of [sign_gap]), autoStart := Some 1,
                  timers := [\<lparr>tid = 1, due = 500, repeat = None, cb = PlayCb\<rparr>], next_id := 2\<rparr>
   \<and> observe (run [Load (Some (result_of [sign_gap])), Elapse 500, Fire 1] initial)
       = Inr (0, True)"
  by code_simp

text \<open>
  Claim C3, amended. In every state whose pending timers have handles below the next
  handle, loading a result resets the index to 0 and \<open>isPlaying\<close> to false. When the
  sign sequence of the result is empty no timer is scheduled: the pending timers are the
  old ones without the interval of the ref and the previous auto-start. When it is not
  empty (whether or not it has a visual sign), exactly one timer is added: a one-shot
  timeout with a new handle, due 500 ms after the load, whose firing sets \<open>isPlaying\<close>
  at index 0 and removes it from the pending timers.
\<close>

theorem load_resets_and_schedules:
  assumes "fresh_ids c"
  shows "currentIndex (load (Some r) c) = 0 \<and> \<not> isPlaying (load (Some r) c)
    \<and> data (load (Some r) c) = Some r
    \<and> (data_signs r = [] \<longrightarrow>
         autoStart (load (Some r) c) = None
         \<and> timers (load (Some r) c)
             = filter (\<lambda>t. Some (tid t) \<noteq> intervalRef c \<and> Some (tid t) \<noteq> autoStart c) (timers c))
    \<and> (data_signs r \<noteq> [] \<longrightarrow>
         (\<exists>h. autoStart (load (Some r) c) = Some h \<and> next_id c \<le> h
           \<and> timers (load (Some r) c)
               = filter (\<lambda>t. Some (tid t) \<noteq> intervalRef c \<and> Some (tid t) \<noteq> autoStart c) (timers c)
                 @ [\<lparr>tid = h, due = now c + 500, repeat = None, cb = PlayCb\<rparr>]
           \<and> (\<exists>c''. run [Elapse 500, Fire h] (load (Some r) c) = Inr c''
                  \<and> isPlaying c'' \<and> currentIndex c'' = 0
                  \<and> (\<forall>t\<in>set (timers c''). tid t \<noteq> h))))"
proof -
  let ?Q = "\<lambda>t. Some (tid t) \<noteq> intervalRef c \<and> Some (tid t) \<noteq> autoStart c"
  consider (none) "data_signs r = []"
    | (paused) "data_signs r \<noteq> []" "\<not> isPlaying c"
    | (playing) "data_signs r \<noteq> []" "isPlaying c"
    by blast
  then show ?thesis
  proof cases
    case none
    then have "load (Some r) c =
        c\<lparr>data := Some r, currentIndex := 0, isPlaying := False, autoStart := None,
          timers := filter ?Q (timers c)\<rparr>"
      by (intro load_no_signs) simp_all
    with none show ?thesis by simp
  next
    case paused
    let ?h = "next_id c"
    have L: "load (Some r) c =
        c\<lparr>data := Some r, currentIndex := 0, isPlaying := False, intervalRef := intervalRef c,
          autoStart := Some ?h,
          timers := filter ?Q (timers c)
                    @ [\<lparr>tid = ?h, due = now c + 500, repeat = None, cb = PlayCb\<rparr>],
          next_id := ?h + 1\<rparr>"
      by (simp add: load_paused [OF paused])
    from start_after_load [OF assms _ L] L paused show ?thesis
      by simp
  next
    case playing
    let ?h = "next_id c + 1"
    have "filter (\<lambda>t. tid t \<noteq> next_id c \<and> ?Q t) (timers c) = filter ?Q (timers c)"
      using assms by (intro filter_cong) (auto simp: fresh_ids_def)
    then have L: "load (Some r) c =
        c\<lparr>data := Some r, currentIndex := 0, isPlaying := False,
          intervalRef := Some (next_id c), autoStart := Some ?h,
          timers := filter ?Q (timers c)
                    @ [\<lparr>tid = ?h, due = now c + 500, repeat = None, cb = PlayCb\<rparr>],
          next_id := ?h + 1\<rparr>"
      by (simp add: load_playing [OF playing])
    from start_after_load [OF assms _ L] L playing show ?thesis
      by simp
  qed
qed

theorem load_resets_and_schedules_witness:
  "fresh_ids initial \<and> data_signs (result_of [sign_you, sign_gap, sign_n]) \<noteq> []
   \<and> data_signs (result_of []) = []
   \<and> currentIndex (load (Some (result_of [sign_you, sign_gap, sign_n])) initial) = 0
   \<and> \<not> isPlaying (load (Some (result_of [sign_you, sign_gap, sign_n])) initial)
   \<and> autoStart (load (Some (result_of [sign_you, sign_gap, sign_n])) initial) = Some 1
   \<and> timers (load (Some (result_of [sign_you, sign_gap, sign_n])) initial)
       = [\<lparr>tid = 1, due = 500, repeat = None, cb = PlayCb\<rparr>]
   \<and> autoStart (load (Some (result_of [])) initial) = None
   \<and> timers (load (Some (result_of [])) initial) = []"
proof -
  have f: "fresh_ids initial"
    by (simp add: fresh_ids_def initial_def)
  have v: "data_signs (result_of [sign_you, sign_gap, sign_n]) \<noteq> []"
    "data_signs (result_of []) = []" "next_id initial = 1" "now initial = 0" "timers initial = []"
    by (simp_all add: result_of_def initial_def)
  have "autoStart (load (Some (result_of [sign_you, sign_gap, sign_n])) initial) = Some 1"
    by code_simp
  with load_resets_and_schedules [OF f, of "result_of [sign_you, sign_gap, sign_n]"]
    load_resets_and_schedules [OF f, of "result_of []"] f v
  show ?thesis by auto
qed

subsection \<open>Handles stay fresh\<close>

text \<open>
  The hypothesis of the last theorem holds when the component is mounted and is kept by
  every event.
\<close>

lemma fresh_ids_commit: "fresh_ids c' \<Longrightarrow> fresh_ids (commit c c')"
  by (auto simp: commit_def timer_cleanup_eq timer_effect_eq fresh_ids_def less_Suc_eq)

lemma same_timers_fresh:
  "fresh_ids c \<Longrightarrow> set (timers c') \<subseteq> set (timers c) \<Longrightarrow> next_id c' = next_id c \<Longrightarrow> fresh_ids c'"
  by (auto simp: fresh_ids_def)

lemma fresh_ids_nextSign: "fresh_ids c \<Longrightarrow> nextSign c = Inr c' \<Longrightarrow> fresh_ids c'"
  by (auto simp: nextSign_def fresh_ids_def Let_def split: if_splits sum.splits)

lemma fresh_ids_prevSign: "fresh_ids c \<Longrightarrow> prevSign c = Inr c' \<Longrightarrow> fresh_ids c'"
  by (auto simp: prevSign_def fresh_ids_def Let_def split: if_splits sum.splits)

lemma fresh_ids_tick: "fresh_ids c \<Longrightarrow> tick sgs c = Inr c' \<Longrightarrow> fresh_ids c'"
  by (auto simp: tick_def fresh_ids_def Let_def clearInterval_eq split: if_splits sum.splits)

lemma fresh_ids_before_callback: "fresh_ids c \<Longrightarrow> fresh_ids (before_callback t c)"
  by (auto simp: before_callback_def fresh_ids_def clearTimeout_def clearInterval_eq
      reschedule_def split: option.splits)

lemma fresh_ids_run_callback: "fresh_ids c \<Longrightarrow> run_callback f c = Inr c' \<Longrightarrow> fresh_ids c'"
proof (cases f)
  case PlayCb
  assume "fresh_ids c" "run_callback f c = Inr c'"
  with PlayCb show ?thesis
    using fresh_ids_commit [of "play c" c] same_timers_fresh [of c "play c"]
    by (auto simp: run_callback_def play_def)
next
  case (TickCb sgs)
  assume "fresh_ids c" "run_callback f c = Inr c'"
  with TickCb show ?thesis
    by (auto simp: run_callback_def dest: fresh_ids_tick intro: fresh_ids_commit split: sum.splits)
qed

lemma fresh_ids_fire: "fresh_ids c \<Longrightarrow> fire h c = Inr c' \<Longrightarrow> fresh_ids c'"
  by (auto simp: fire_def dest: fresh_ids_run_callback [OF fresh_ids_before_callback]
      split: option.splits if_splits)

lemma fresh_ids_load: "fresh_ids c \<Longrightarrow> fresh_ids (load d c)"
proof -
  assume f: "fresh_ids c"
  consider (same) "d = None" "data c = None"
    | (none) "(case d of None \<Rightarrow> [] | Some r \<Rightarrow> data_signs r) = []" "d \<noteq> None \<or> data c \<noteq> None"
    | (paused) r where "d = Some r" "data_signs r \<noteq> []" "\<not> isPlaying c"
    | (playing) r where "d = Some r" "data_signs r \<noteq> []" "isPlaying c"
    by (cases d) auto
  then show ?thesis
  proof cases
    case same
    with f show ?thesis by (simp add: load_def)
  next
    case none
    with f show ?thesis by (auto simp: load_no_signs fresh_ids_def)
  next
    case paused
    with f show ?thesis by (auto simp: load_paused fresh_ids_def less_Suc_eq)
  next
    case playing
    with f show ?thesis by (fastforce simp: load_playing fresh_ids_def)
  qed
qed

lemma fresh_ids_initial: "fresh_ids initial"
  by (simp add: fresh_ids_def initial_def)

lemma fresh_ids_step:
  assumes "fresh_ids c" and "step e c = Inr c'"
  shows "fresh_ids c'"
proof (cases e)
  case Play
  with assms show ?thesis
    using fresh_ids_commit [of "play c" c] same_timers_fresh [of c "play c"]
    by (auto simp: play_def)
next
  case Pause
  with assms show ?thesis
    using fresh_ids_commit [of "pause c" c] same_timers_fresh [of c "pause c"]
    by (auto simp: pause_eq)
next
  case Next
  with assms show ?thesis
    by (auto dest: fresh_ids_nextSign intro: fresh_ids_commit split: sum.splits)
next
  case Prev
  with assms show ?thesis
    by (auto dest: fresh_ids_prevSign intro: fresh_ids_commit split: sum.splits)
next
  case Replay
  have "fresh_ids (replay c)"
    using assms(1) by (auto simp: replay_eq fresh_ids_def less_Suc_eq)
  with assms Replay show ?thesis by (auto intro: fresh_ids_commit)
next
  case (Seek i)
  with assms show ?thesis
    using same_timers_fresh [of c "goToSign i c"] by (auto simp: goToSign_def)
next
  case (SetSpeed ms)
  with assms show ?thesis
    using fresh_ids_commit [of "c\<lparr>speed := ms\<rparr>" c] same_timers_fresh [of c "c\<lparr>speed := ms\<rparr>"]
    by auto
next
  case (Load d)
  with assms show ?thesis by (auto intro: fresh_ids_load)
next
  case (Fire h)
  with assms show ?thesis by (auto dest: fresh_ids_fire)
next
  case (Elapse d)
  with assms show ?thesis
    using same_timers_fresh [of c "c\<lparr>now := now c + d\<rparr>"] by auto
qed

end
